theory Spec2Isabelle
  imports Main "HOL-Library.Word"
begin

unbundle bit_operations_syntax

section \<open>Lab 3.4: the push button demo\<close>

text \<open>
  A shallow embedding of \<^verbatim>\<open>src/lab3/push_button_demo.cpp\<close>: the class
  \<^verbatim>\<open>WrappedCounter\<close> and the polling loop \<^verbatim>\<open>run_button_demo\<close>.
\<close>

subsection \<open>Machine types\<close>

text \<open>
  \<^verbatim>\<open>Count\<close> is \<^verbatim>\<open>std::uint64_t\<close>; \<^verbatim>\<open>Register\<close> is \<^verbatim>\<open>std::uint32_t\<close>.
  Unsigned arithmetic wraps around, as word arithmetic does.
\<close>

type_synonym Count = "64 word"
type_synonym Register = "32 word"

text \<open>
  The one operation of the program that has no defined result: the remainder of a
  division by zero.
\<close>

datatype fault = DivisionByZero

subsection \<open>WrappedCounter\<close>

record WrappedCounter =
  m_couter :: Count
  m_max :: Count

text \<open>The constructor: \<^verbatim>\<open>m_couter{0}\<close>, \<^verbatim>\<open>m_max{max}\<close>.\<close>

definition WrappedCounter_new :: "Count \<Rightarrow> WrappedCounter" where
  "WrappedCounter_new max_value = \<lparr>m_couter = 0, m_max = max_value\<rparr>"

text \<open>\<^verbatim>\<open>operator Count() const\<close>.\<close>

definition operator_Count :: "WrappedCounter \<Rightarrow> Count" where
  "operator_Count c = m_couter c"

text \<open>
  \<^verbatim>\<open>apply\<close>: \<^verbatim>\<open>m_couter = func(m_couter) % (m_max + 1)\<close>. The sum \<^verbatim>\<open>m_max + 1\<close> is
  computed in \<^verbatim>\<open>Count\<close> and wraps to 0 when \<^verbatim>\<open>m_max\<close> is the largest value of the
  type; \<^verbatim>\<open>%\<close> by zero is undefined in C++, which the model reports as a fault.
\<close>

definition apply_func :: "(Count \<Rightarrow> Count) \<Rightarrow> WrappedCounter \<Rightarrow> fault + WrappedCounter" where
  "apply_func func c =
     (let new_counter = func (m_couter c)
      in if m_max c + 1 = 0 then Inl DivisionByZero
         else Inr (c\<lparr>m_couter := new_counter mod (m_max c + 1)\<rparr>))"

text \<open>The prefix operators return the new value, the postfix ones the old value.\<close>

definition operator_pre_inc :: "WrappedCounter \<Rightarrow> Count \<times> WrappedCounter" where
  "operator_pre_inc c =
     (let c' = c\<lparr>m_couter := (if m_couter c = m_max c then 0 else m_couter c + 1)\<rparr>
      in (m_couter c', c'))"

definition operator_pre_dec :: "WrappedCounter \<Rightarrow> Count \<times> WrappedCounter" where
  "operator_pre_dec c =
     (let c' = c\<lparr>m_couter := (if m_couter c = 0 then m_max c else m_couter c - 1)\<rparr>
      in (m_couter c', c'))"

definition operator_post_inc :: "WrappedCounter \<Rightarrow> Count \<times> WrappedCounter" where
  "operator_post_inc c =
     (let tmp = m_couter c; c' = snd (operator_pre_inc c) in (tmp, c'))"

definition operator_post_dec :: "WrappedCounter \<Rightarrow> Count \<times> WrappedCounter" where
  "operator_post_dec c =
     (let tmp = m_couter c; c' = snd (operator_pre_dec c) in (tmp, c'))"

text \<open>The range invariant of the class comment: the value lies in \<open>[0, max]\<close>.\<close>

definition in_range :: "WrappedCounter \<Rightarrow> bool" where
  "in_range c \<longleftrightarrow> m_couter c \<le> m_max c"

subsection \<open>Buttons and the device\<close>

text \<open>
  The enumeration \<^verbatim>\<open>PushButton\<close> of \<^verbatim>\<open>prelab/prelab_fpga.h\<close>, with the six
  enumerators that \<^verbatim>\<open>run_button_demo\<close> switches over. (\<^verbatim>\<open>PushButton::None\<close> is
  written \<open>PushButton_None\<close>.)
\<close>

datatype PushButton = PushButton_None | Button0 | Button1 | Button2 | Button3 | Multiple

text \<open>
  The device calls of one run, in the order they happen: each read of the buttons with
  the event it decoded to, each read of the switches with its value, each write of the
  LED register with the value written, and each sleep of \<^verbatim>\<open>REFRESH_PERIOD\<close>.
\<close>

datatype io_event =
    PushButtonGet PushButton
  | ReadAllSwitches Register
  | WriteAllLeds Register
  | sleep_for

definition SWITCH_EXIT_SENTINEL :: Register where
  "SWITCH_EXIT_SENTINEL = 0"

subsection \<open>The control loop\<close>

text \<open>The local variables of \<^verbatim>\<open>run_button_demo\<close>, and the device calls made so far.\<close>

record demo_state =
  counter :: WrappedCounter
  previous_button :: PushButton
  run_demo :: bool
  io_log :: "io_event list"

definition emit :: "io_event \<Rightarrow> demo_state \<Rightarrow> demo_state" where
  "emit e s = s\<lparr>io_log := io_log s @ [e]\<rparr>"

text \<open>
  The \<^verbatim>\<open>switch (button_press)\<close> statement. The second argument is the value that
  \<^verbatim>\<open>ReadAllSwitches\<close> returns if it is called in this iteration; it is called in the
  \<^verbatim>\<open>Multiple\<close> case only. (The header declaring \<^verbatim>\<open>ReadAllSwitches\<close> is not part of
  the sources; its result is taken to be a \<^verbatim>\<open>Register\<close>, which the lambda converts to
  \<^verbatim>\<open>Count\<close>.)
\<close>

fun switch_button_press :: "PushButton \<Rightarrow> Register \<Rightarrow> demo_state \<Rightarrow> fault + demo_state" where
  "switch_button_press PushButton_None sw s = Inr s"
| "switch_button_press Button0 sw s =
     Inr (s\<lparr>counter := snd (operator_pre_inc (counter s))\<rparr>)"
| "switch_button_press Button1 sw s =
     Inr (s\<lparr>counter := snd (operator_pre_dec (counter s))\<rparr>)"
| "switch_button_press Button2 sw s =
     (case apply_func (\<lambda>count. drop_bit 1 count) (counter s) of
        Inl e \<Rightarrow> Inl e
      | Inr c \<Rightarrow> Inr (s\<lparr>counter := c\<rparr>))"
| "switch_button_press Button3 sw s =
     (case apply_func (\<lambda>count. push_bit 1 count) (counter s) of
        Inl e \<Rightarrow> Inl e
      | Inr c \<Rightarrow> Inr (s\<lparr>counter := c\<rparr>))"
| "switch_button_press Multiple sw s =
     (let s1 = emit (ReadAllSwitches sw) s;
          switch_state = sw
      in case apply_func (\<lambda>_. ucast switch_state) (counter s1) of
           Inl e \<Rightarrow> Inl e
         | Inr c \<Rightarrow>
             Inr (s1\<lparr>counter := c,
                     run_demo := (if switch_state = SWITCH_EXIT_SENTINEL then False
                                  else run_demo s1)\<rparr>))"

text \<open>
  One pass through the body of \<^verbatim>\<open>while (run_demo)\<close>. The input is the event that
  \<^verbatim>\<open>PushButtonGet\<close> returns in this iteration, paired with the state of the switches.
\<close>

definition loop_body :: "PushButton \<times> Register \<Rightarrow> demo_state \<Rightarrow> fault + demo_state" where
  "loop_body inp s =
     (let button_press = fst inp;
          s1 = emit (PushButtonGet button_press) s;
          wait_for_unpress =
            (previous_button s1 = Multiple \<and> button_press \<noteq> PushButton_None);
          no_button_change = (button_press = previous_button s1)
      in if wait_for_unpress \<or> no_button_change then Inr (emit sleep_for s1)
         else case switch_button_press button_press (snd inp) s1 of
                Inl e \<Rightarrow> Inl e
              | Inr s2 \<Rightarrow>
                  (let s3 = emit (WriteAllLeds (ucast (operator_Count (counter s2)))) s2;
                       s4 = s3\<lparr>previous_button := button_press\<rparr>
                   in Inr (emit sleep_for s4)))"

text \<open>
  The loop, driven by the inputs of the successive iterations. It leaves as soon as
  \<^verbatim>\<open>run_demo\<close> is false, consuming no further input; when the inputs given are used up
  the state reached so far is returned.
\<close>

fun while_run_demo :: "(PushButton \<times> Register) list \<Rightarrow> demo_state \<Rightarrow> fault + demo_state" where
  "while_run_demo [] s = Inr s"
| "while_run_demo (inp # inps) s =
     (if run_demo s
      then (case loop_body inp s of
              Inl e \<Rightarrow> Inl e
            | Inr s' \<Rightarrow> while_run_demo inps s')
      else Inr s)"

text \<open>
  The state on entry to the loop. \<^verbatim>\<open>LED_COUNT\<close> is declared in the header that is not
  part of the sources and is a parameter here; \<^verbatim>\<open>(1u << LED_COUNT) - 1\<close> is computed in
  \<^verbatim>\<open>unsigned int\<close> and converted to \<^verbatim>\<open>Count\<close>.
\<close>

definition initial_state :: "nat \<Rightarrow> demo_state" where
  "initial_state LED_COUNT =
     \<lparr>counter = WrappedCounter_new (ucast (push_bit LED_COUNT (1 :: Register) - 1)),
      previous_button = PushButton_None,
      run_demo = True,
      io_log = []\<rparr>"

text \<open>
  The states in which the loop test is evaluated during some run. The shift
  \<^verbatim>\<open>1u << LED_COUNT\<close> is defined for \<^verbatim>\<open>LED_COUNT\<close> below the width of
  \<^verbatim>\<open>unsigned int\<close> only.
\<close>

inductive reachable :: "nat \<Rightarrow> demo_state \<Rightarrow> bool" for LED_COUNT :: nat where
  start: "LED_COUNT < 32 \<Longrightarrow> reachable LED_COUNT (initial_state LED_COUNT)"
| iterate: "reachable LED_COUNT s \<Longrightarrow> run_demo s \<Longrightarrow> loop_body inp s = Inr s'
            \<Longrightarrow> reachable LED_COUNT s'"

text \<open>The values written to the LED register, in order.\<close>

fun led_writes :: "io_event list \<Rightarrow> Register list" where
  "led_writes [] = []"
| "led_writes (WriteAllLeds v # es) = v # led_writes es"
| "led_writes (e # es) = led_writes es"

text \<open>An event of the dispatch: a read of the switches or a write of the LEDs.\<close>

fun is_dispatch_event :: "io_event \<Rightarrow> bool" where
  "is_dispatch_event (ReadAllSwitches v) = True"
| "is_dispatch_event (WriteAllLeds v) = True"
| "is_dispatch_event e = False"

subsection \<open>The input decoder\<close>

text \<open>
  Modelled from the spec: \<^verbatim>\<open>PushButtonGet\<close> is defined in \<^verbatim>\<open>prelab/prelab_fpga.h\<close>,
  which is not part of the sources. The specification's rule for the raw button
  register: no bit set gives \<open>None\<close>, exactly one bit set gives the button of that bit's
  position, more than one bit set gives \<open>Multiple\<close>; every pattern has exactly one
  event. The specification names the buttons of the positions 0 to 3; the event of a
  single set bit at any other position is not given there and is the parameter
  \<open>other\<close> of the model.
\<close>

definition set_bits :: "Register \<Rightarrow> nat list" where
  "set_bits r = filter (bit r) [0..<32]"


definition button_at :: "(nat \<Rightarrow> PushButton) \<Rightarrow> nat \<Rightarrow> PushButton" where
  "button_at other p =
     (if p = 0 then Button0
      else if p = 1 then Button1
      else if p = 2 then Button2
      else if p = 3 then Button3
      else other p)"

definition decode_buttons :: "(nat \<Rightarrow> PushButton) \<Rightarrow> Register \<Rightarrow> PushButton" where
  "decode_buttons other r =
     (case set_bits r of
        [] \<Rightarrow> PushButton_None
      | [p] \<Rightarrow> button_at other p
      | _ \<Rightarrow> Multiple)"

section \<open>Properties of the counter\<close>

lemma below_max_no_wrap:
  fixes v :: Count
  assumes "v \<le> m" "v \<noteq> m"
  shows "unat (v + 1) = unat v + 1"
proof -
  have "v < m" using assms by simp
  then have "unat v < unat m" by (simp add: word_less_nat_alt)
  moreover have "unat m < 2 ^ 64" using unsigned_less [of m] by simp
  ultimately have "unat v + 1 < 2 ^ 64" by simp
  then show ?thesis by (simp add: unat_word_ariths)
qed

lemma dec_not_max:
  fixes v :: Count
  assumes "v \<le> m" "v \<noteq> 0"
  shows "v - 1 \<noteq> m"
proof
  assume "v - 1 = m"
  then have "unat (v - 1) = unat m" by simp
  then have "unat v - 1 = unat m" using assms(2) by (simp add: unat_minus_one)
  moreover have "unat v \<le> unat m" using assms(1) by (simp add: word_le_nat_alt)
  moreover have "unat v \<noteq> 0" using assms(2) by (simp add: unat_eq_0)
  ultimately show False by arith
qed

lemma inc_not_zero:
  fixes v :: Count
  assumes "v \<le> m" "v \<noteq> m"
  shows "v + 1 \<noteq> 0"
proof
  assume "v + 1 = 0"
  then have "unat (v + 1) = 0" by simp
  then show False using below_max_no_wrap [OF assms] by simp
qed

lemma max_plus_one:
  fixes m :: Count
  assumes "m + 1 \<noteq> 0"
  shows "unat (m + 1) = unat m + 1"
  using assms unatSuc [of m] by (simp add: add.commute)

lemma apply_func_defined:
  assumes "m_max c + 1 \<noteq> 0"
  shows "apply_func f c = Inr (c\<lparr>m_couter := f (m_couter c) mod (m_max c + 1)\<rparr>)"
  using assms by (simp add: apply_func_def Let_def)

lemma mod_max_unat:
  fixes x m :: Count
  assumes "m + 1 \<noteq> 0"
  shows "unat (x mod (m + 1)) = unat x mod (unat m + 1)"
  using max_plus_one [OF assms] by (simp add: unat_mod)

lemma mod_max_le:
  fixes x m :: Count
  assumes "m + 1 \<noteq> 0"
  shows "x mod (m + 1) \<le> m"
proof -
  have "unat (x mod (m + 1)) < unat m + 1"
    using mod_max_unat [OF assms, of x] by simp
  then show ?thesis by (simp add: word_le_nat_alt)
qed

lemma in_range_pre_inc:
  assumes "in_range c"
  shows "in_range (snd (operator_pre_inc c))"
proof (cases "m_couter c = m_max c")
  case True
  then show ?thesis by (simp add: operator_pre_inc_def Let_def in_range_def)
next
  case False
  then have "m_couter c < m_max c" using assms by (simp add: in_range_def)
  then have "m_couter c + 1 \<le> m_max c" by (rule inc_le)
  then show ?thesis using False by (simp add: operator_pre_inc_def Let_def in_range_def)
qed

lemma in_range_pre_dec: "in_range c \<Longrightarrow> in_range (snd (operator_pre_dec c))"
  by (auto simp: operator_pre_dec_def Let_def in_range_def word_le_nat_alt unat_minus_one)

lemma increment_step:
  assumes "in_range c"
  shows "snd (operator_pre_inc c) =
           c\<lparr>m_couter := of_nat ((unat (m_couter c) + 1) mod (unat (m_max c) + 1))\<rparr>"
proof (cases "m_couter c = m_max c")
  case True
  then show ?thesis by (simp add: operator_pre_inc_def Let_def)
next
  case False
  then have "m_couter c < m_max c" using assms by (simp add: in_range_def)
  then have "unat (m_couter c) < unat (m_max c)" by (simp add: word_less_nat_alt)
  then have "(unat (m_couter c) + 1) mod (unat (m_max c) + 1) = unat (m_couter c) + 1"
    by simp
  then show ?thesis using False by (simp add: operator_pre_inc_def Let_def)
qed

lemma increment_iterated:
  assumes "in_range c"
  shows "((snd \<circ> operator_pre_inc) ^^ n) c =
           c\<lparr>m_couter := of_nat ((unat (m_couter c) + n) mod (unat (m_max c) + 1))\<rparr>"
proof (induction n)
  case 0
  have "unat (m_couter c) \<le> unat (m_max c)"
    using assms by (simp add: in_range_def word_le_nat_alt)
  then show ?case by simp
next
  case (Suc n)
  let ?M = "unat (m_max c) + 1"
  let ?k = "(unat (m_couter c) + n) mod ?M"
  let ?d = "c\<lparr>m_couter := of_nat ?k\<rparr>"
  have k: "?k \<le> unat (m_max c)"
    using mod_less_divisor [of ?M "unat (m_couter c) + n"] by simp
  have "unat (m_max c) < 2 ^ 64" using unsigned_less [of "m_max c"] by simp
  with k have "?k < 2 ^ 64" by (rule le_less_trans)
  then have uk: "unat (of_nat ?k :: Count) = ?k"
    by (simp add: unat_of_nat)
  then have "in_range ?d" using k by (simp add: in_range_def word_le_nat_alt)
  then have "snd (operator_pre_inc ?d) =
      ?d\<lparr>m_couter := of_nat ((unat (m_couter ?d) + 1) mod (unat (m_max ?d) + 1))\<rparr>"
    by (rule increment_step)
  also have "\<dots> = c\<lparr>m_couter := of_nat ((?k + 1) mod ?M)\<rparr>"
    using uk by simp
  also have "(?k + 1) mod ?M = (unat (m_couter c) + Suc n) mod ?M"
    by (simp add: mod_Suc_eq)
  finally show ?case using Suc.IH by simp
qed

text \<open>
  C2. For a counter whose value \<open>v\<close> lies in \<open>[0, max]\<close>, the increment stores 0 when
  \<open>v = max\<close> and \<open>v + 1\<close> (which does not overflow) otherwise, changes nothing else,
  and returns the stored value.
\<close>

theorem increment_spec:
  assumes "in_range c"
  shows "snd (operator_pre_inc c) =
           c\<lparr>m_couter := (if m_couter c = m_max c then 0 else m_couter c + 1)\<rparr>
       \<and> fst (operator_pre_inc c) = m_couter (snd (operator_pre_inc c))
       \<and> unat (fst (operator_pre_inc c)) =
           (if m_couter c = m_max c then 0 else unat (m_couter c) + 1)"
  using assms below_max_no_wrap [of "m_couter c" "m_max c"]
  by (simp add: operator_pre_inc_def Let_def in_range_def)

theorem increment_spec_witness:
  "in_range \<lparr>m_couter = 15, m_max = 15\<rparr>
   \<and> operator_pre_inc \<lparr>m_couter = 15, m_max = 15\<rparr> = (0, \<lparr>m_couter = 0, m_max = 15\<rparr>)
   \<and> in_range \<lparr>m_couter = 6, m_max = 15\<rparr>
   \<and> operator_pre_inc \<lparr>m_couter = 6, m_max = 15\<rparr> = (7, \<lparr>m_couter = 7, m_max = 15\<rparr>)"
proof -
  have a: "in_range \<lparr>m_couter = 15, m_max = 15\<rparr>" by (simp add: in_range_def)
  have b: "in_range \<lparr>m_couter = 6, m_max = 15\<rparr>" by (simp add: in_range_def)
  show ?thesis
    using a b increment_spec [OF a] increment_spec [OF b]
    by (simp add: prod_eq_iff)
qed

text \<open>
  C3. For a counter whose value \<open>v\<close> lies in \<open>[0, max]\<close>, the decrement stores
  \<open>max\<close> when \<open>v = 0\<close> and \<open>v - 1\<close> (which does not underflow) otherwise, changes
  nothing else, and returns the stored value.
\<close>

theorem decrement_spec:
  assumes "in_range c"
  shows "snd (operator_pre_dec c) =
           c\<lparr>m_couter := (if m_couter c = 0 then m_max c else m_couter c - 1)\<rparr>
       \<and> fst (operator_pre_dec c) = m_couter (snd (operator_pre_dec c))
       \<and> unat (fst (operator_pre_dec c)) =
           (if m_couter c = 0 then unat (m_max c) else unat (m_couter c) - 1)"
  using assms
  by (simp add: operator_pre_dec_def Let_def in_range_def unat_minus_one)

theorem decrement_spec_witness:
  "in_range \<lparr>m_couter = 0, m_max = 15\<rparr>
   \<and> operator_pre_dec \<lparr>m_couter = 0, m_max = 15\<rparr> = (15, \<lparr>m_couter = 15, m_max = 15\<rparr>)
   \<and> in_range \<lparr>m_couter = 6, m_max = 15\<rparr>
   \<and> operator_pre_dec \<lparr>m_couter = 6, m_max = 15\<rparr> = (5, \<lparr>m_couter = 5, m_max = 15\<rparr>)"
proof -
  have a: "in_range \<lparr>m_couter = 0, m_max = 15\<rparr>" by (simp add: in_range_def)
  have b: "in_range \<lparr>m_couter = 6, m_max = 15\<rparr>" by (simp add: in_range_def)
  show ?thesis
    using a b decrement_spec [OF a] decrement_spec [OF b]
    by (simp add: prod_eq_iff)
qed

text \<open>
  C7. For a counter whose value lies in \<open>[0, max]\<close>, incrementing after decrementing
  and decrementing after incrementing both give the counter back.
\<close>

theorem increment_decrement_inverse:
  assumes "in_range c"
  shows "snd (operator_pre_inc (snd (operator_pre_dec c))) = c
       \<and> snd (operator_pre_dec (snd (operator_pre_inc c))) = c"
  using assms dec_not_max [of "m_couter c" "m_max c"] inc_not_zero [of "m_couter c" "m_max c"]
  by (simp add: operator_pre_inc_def operator_pre_dec_def Let_def in_range_def)

theorem increment_decrement_inverse_witness:
  "in_range \<lparr>m_couter = 0, m_max = 15\<rparr>
   \<and> snd (operator_pre_inc (snd (operator_pre_dec \<lparr>m_couter = 0, m_max = 15\<rparr>)))
       = \<lparr>m_couter = 0, m_max = 15\<rparr>
   \<and> snd (operator_pre_dec (snd (operator_pre_inc \<lparr>m_couter = 0, m_max = 15\<rparr>)))
       = \<lparr>m_couter = 0, m_max = 15\<rparr>
   \<and> snd (operator_pre_dec \<lparr>m_couter = 0, m_max = 15\<rparr>) = \<lparr>m_couter = 15, m_max = 15\<rparr>"
proof -
  have a: "in_range \<lparr>m_couter = 0, m_max = 15\<rparr>" by (simp add: in_range_def)
  show ?thesis using a increment_decrement_inverse [OF a]
    by (simp add: operator_pre_dec_def)
qed

text \<open>
  C8. For a counter whose value lies in \<open>[0, max]\<close>, \<open>max + 1\<close> increments in
  succession give the counter back.
\<close>

theorem increment_full_cycle:
  assumes "in_range c"
  shows "((snd \<circ> operator_pre_inc) ^^ (unat (m_max c) + 1)) c = c"
proof -
  have "unat (m_couter c) \<le> unat (m_max c)"
    using assms by (simp add: in_range_def word_le_nat_alt)
  then have small: "unat (m_couter c) mod (unat (m_max c) + 1) = unat (m_couter c)"
    by simp
  have "(unat (m_couter c) + (unat (m_max c) + 1)) mod (unat (m_max c) + 1)
      = unat (m_couter c) mod (unat (m_max c) + 1)"
    by (rule mod_add_self2)
  also note small
  finally have "(unat (m_couter c) + (unat (m_max c) + 1)) mod (unat (m_max c) + 1)
      = unat (m_couter c)" .
  then show ?thesis using increment_iterated [OF assms, of "unat (m_max c) + 1"]
    by simp
qed

theorem increment_full_cycle_witness:
  "in_range \<lparr>m_couter = 2, m_max = 3\<rparr>
   \<and> ((snd \<circ> operator_pre_inc) ^^ 4) \<lparr>m_couter = 2, m_max = 3\<rparr> = \<lparr>m_couter = 2, m_max = 3\<rparr>"
proof -
  have a: "in_range \<lparr>m_couter = 2, m_max = 3\<rparr>" by (simp add: in_range_def)
  show ?thesis using a increment_full_cycle [OF a] by simp
qed

section \<open>Properties of the control loop\<close>

lemma gate_skips:
  assumes "(previous_button s = Multiple \<and> fst inp \<noteq> PushButton_None)
           \<or> fst inp = previous_button s"
  shows "loop_body inp s = Inr (s\<lparr>io_log := io_log s @ [PushButtonGet (fst inp), sleep_for]\<rparr>)"
  using assms by (auto simp: loop_body_def Let_def emit_def)

lemma held_after_chord:
  assumes "previous_button s = Multiple" "\<forall>inp \<in> set inps. fst inp \<noteq> PushButton_None"
  shows "while_run_demo inps s =
           Inr (s\<lparr>io_log := io_log s @
                  (if run_demo s
                   then concat (map (\<lambda>inp. [PushButtonGet (fst inp), sleep_for]) inps)
                   else [])\<rparr>)"
  using assms
proof (induction inps arbitrary: s)
  case Nil
  then show ?case by simp
next
  case (Cons inp inps)
  show ?case
  proof (cases "run_demo s")
    case False
    then show ?thesis by simp
  next
    case True
    let ?s' = "s\<lparr>io_log := io_log s @ [PushButtonGet (fst inp), sleep_for]\<rparr>"
    have step: "loop_body inp s = Inr ?s'"
      using Cons.prems by (intro gate_skips) simp
    have "previous_button ?s' = Multiple" using Cons.prems by simp
    moreover have "\<forall>i \<in> set inps. fst i \<noteq> PushButton_None" using Cons.prems by simp
    ultimately have "while_run_demo inps ?s' =
           Inr (?s'\<lparr>io_log := io_log ?s' @
                  (if run_demo ?s'
                   then concat (map (\<lambda>inp. [PushButtonGet (fst inp), sleep_for]) inps)
                   else [])\<rparr>)"
      by (rule Cons.IH)
    then show ?thesis using True step by simp
  qed
qed

lemma loop_left:
  assumes "\<not> run_demo s"
  shows "while_run_demo inps s = Inr s"
  using assms by (cases inps) simp_all

lemma ucast_register_unat:
  fixes x :: Register
  shows "unat (ucast x :: Count) = unat x"
proof -
  have "unat x < 2 ^ 32" using unsigned_less [of x] by simp
  then have "unat x < 2 ^ 64" by simp
  then show ?thesis by (simp add: unsigned_ucast_eq take_bit_nat_eq_self)
qed

lemma ucast_register_not_largest:
  fixes x :: Register
  shows "(ucast x :: Count) + 1 \<noteq> 0"
proof
  assume "(ucast x :: Count) + 1 = 0"
  then have "(ucast x :: Count) = - 1" by (simp add: add_eq_0_iff2)
  then have "unat (ucast x :: Count) = unat (- 1 :: Count)" by simp
  moreover have "unat x < 2 ^ 32" using unsigned_less [of x] by simp
  then have "unat x < 2 ^ 64" by simp
  then have "unat (ucast x :: Count) = unat x"
    by (simp add: unsigned_ucast_eq take_bit_nat_eq_self)
  moreover have "unat x < 2 ^ 32" using unsigned_less [of x] by simp
  ultimately show False by (simp add: unsigned_minus_1_eq_mask mask_eq_exp_minus_1)
qed

lemma switch_button_press_max:
  assumes "switch_button_press b sw s = Inr s'"
  shows "m_max (counter s') = m_max (counter s)"
  using assms
  by (cases b)
     (auto simp: operator_pre_inc_def operator_pre_dec_def apply_func_def Let_def emit_def
           split: if_splits sum.splits)

lemma loop_body_max:
  assumes "loop_body inp s = Inr s'"
  shows "m_max (counter s') = m_max (counter s)"
proof -
  let ?s1 = "emit (PushButtonGet (fst inp)) s"
  have m1: "m_max (counter ?s1) = m_max (counter s)" by (simp add: emit_def)
  show ?thesis
  proof (cases "(previous_button ?s1 = Multiple \<and> fst inp \<noteq> PushButton_None)
                 \<or> fst inp = previous_button ?s1")
    case True
    then have "loop_body inp s = Inr (emit sleep_for ?s1)"
      by (simp add: loop_body_def Let_def)
    with assms show ?thesis by (auto simp: emit_def)
  next
    case False
    then obtain s2 where s2: "switch_button_press (fst inp) (snd inp) ?s1 = Inr s2"
      and s': "s' = emit sleep_for
          ((emit (WriteAllLeds (ucast (operator_Count (counter s2)))) s2)
             \<lparr>previous_button := fst inp\<rparr>)"
      using assms by (auto simp: loop_body_def Let_def split: sum.splits)
    have "m_max (counter s2) = m_max (counter ?s1)" using s2 by (rule switch_button_press_max)
    then show ?thesis using s' m1 by (simp add: emit_def)
  qed
qed

lemma reachable_max:
  assumes "reachable L s"
  shows "m_max (counter s) = ucast (push_bit L (1 :: Register) - 1)"
  using assms
proof (induction rule: reachable.induct)
  case start
  show ?case by (simp add: initial_state_def WrappedCounter_new_def)
next
  case (iterate s inp s')
  then show ?case using loop_body_max [of inp s s'] by simp
qed

lemma reachable_no_fault:
  assumes "reachable L s"
  shows "m_max (counter s) + 1 \<noteq> 0"
  using reachable_max [OF assms] ucast_register_not_largest by simp

lemma chord_step:
  assumes "m_max (counter s) + 1 \<noteq> 0" "run_demo s" "previous_button s \<noteq> Multiple"
  shows "loop_body (Multiple, sw) s =
     Inr (s\<lparr>counter := (counter s)\<lparr>m_couter := ucast sw mod (m_max (counter s) + 1)\<rparr>,
            previous_button := Multiple,
            run_demo := (sw \<noteq> SWITCH_EXIT_SENTINEL),
            io_log := io_log s @
              [PushButtonGet Multiple, ReadAllSwitches sw,
               WriteAllLeds (ucast (ucast sw mod (m_max (counter s) + 1) :: Count)), sleep_for]\<rparr>)"
  using assms
  by (simp add: loop_body_def Let_def emit_def apply_func_def operator_Count_def)

lemma apply_func_in_range:
  assumes "apply_func f c = Inr c'"
  shows "in_range c'"
proof -
  have nz: "m_max c + 1 \<noteq> 0" using assms by (auto simp: apply_func_def Let_def split: if_splits)
  then have "c' = c\<lparr>m_couter := f (m_couter c) mod (m_max c + 1)\<rparr>"
    using assms by (simp add: apply_func_def Let_def)
  then show ?thesis using mod_max_le [OF nz, of "f (m_couter c)"] by (simp add: in_range_def)
qed

lemma switch_button_press_in_range:
  assumes "switch_button_press b sw s = Inr s'" "in_range (counter s)"
  shows "in_range (counter s')"
proof (cases b)
  case PushButton_None
  then show ?thesis using assms by simp
next
  case Button0
  then show ?thesis using assms in_range_pre_inc [of "counter s"] by auto
next
  case Button1
  then show ?thesis using assms in_range_pre_dec [of "counter s"] by auto
next
  case Button2
  then show ?thesis using assms
    by (auto split: sum.splits dest: apply_func_in_range)
next
  case Button3
  then show ?thesis using assms
    by (auto split: sum.splits dest: apply_func_in_range)
next
  case Multiple
  then show ?thesis using assms
    by (auto simp: Let_def emit_def split: sum.splits dest: apply_func_in_range)
qed

lemma loop_body_in_range:
  assumes "loop_body inp s = Inr s'" "in_range (counter s)"
  shows "in_range (counter s')"
proof -
  let ?s1 = "emit (PushButtonGet (fst inp)) s"
  have r1: "in_range (counter ?s1)" using assms(2) by (simp add: emit_def)
  show ?thesis
  proof (cases "(previous_button ?s1 = Multiple \<and> fst inp \<noteq> PushButton_None)
                 \<or> fst inp = previous_button ?s1")
    case True
    then have "loop_body inp s = Inr (emit sleep_for ?s1)"
      by (simp add: loop_body_def Let_def)
    with assms show ?thesis by (auto simp: emit_def)
  next
    case False
    then obtain s2 where s2: "switch_button_press (fst inp) (snd inp) ?s1 = Inr s2"
      and s': "s' = emit sleep_for
          ((emit (WriteAllLeds (ucast (operator_Count (counter s2)))) s2)
             \<lparr>previous_button := fst inp\<rparr>)"
      using assms(1) by (auto simp: loop_body_def Let_def split: sum.splits)
    have "in_range (counter s2)" using s2 r1 by (rule switch_button_press_in_range)
    then show ?thesis using s' by (simp add: emit_def)
  qed
qed

lemma reachable_in_range:
  assumes "reachable L s"
  shows "in_range (counter s)"
  using assms
proof (induction rule: reachable.induct)
  case start
  show ?case by (simp add: initial_state_def WrappedCounter_new_def in_range_def)
next
  case (iterate s inp s')
  then show ?case using loop_body_in_range [of inp s s'] by simp
qed

text \<open>
  The fault branch of \<^verbatim>\<open>apply\<close> is taken by the counter whose maximum is the largest
  value of \<^verbatim>\<open>Count\<close> only; by \<open>reachable_no_fault\<close> the loop never holds such a
  counter.
\<close>

lemma apply_func_fault:
  "apply_func id \<lparr>m_couter = 0, m_max = 0xFFFFFFFFFFFFFFFF\<rparr> = Inl DivisionByZero"
  by (simp add: apply_func_def)

text \<open>
  C1. In every state the loop reaches, the counter's value lies in \<open>[0, max]\<close> and
  \<^verbatim>\<open>apply(f)\<close>, for every function \<open>f\<close>, stores \<open>f(old value) mod (max + 1)\<close>, which
  lies in \<open>[0, max]\<close> whatever \<open>f\<close> returns; the same holds of any counter whose
  \<^verbatim>\<open>m_max + 1\<close> does not wrap. For every maximum, a value stored by \<^verbatim>\<open>apply\<close> lies in
  \<open>[0, max]\<close>, the constructor starts in \<open>[0, max]\<close>, and the four increment and
  decrement operators keep the value in \<open>[0, max]\<close>.
\<close>

theorem apply_wraps_into_range:
  "(reachable LED_COUNT s \<longrightarrow>
      apply_func f (counter s) =
        Inr ((counter s)\<lparr>m_couter := f (m_couter (counter s)) mod (m_max (counter s) + 1)\<rparr>)
    \<and> unat (f (m_couter (counter s)) mod (m_max (counter s) + 1)) =
        unat (f (m_couter (counter s))) mod (unat (m_max (counter s)) + 1)
    \<and> f (m_couter (counter s)) mod (m_max (counter s) + 1) \<le> m_max (counter s)
    \<and> in_range (counter s))
 \<and> (m_max c + 1 \<noteq> 0 \<longrightarrow>
      apply_func f c = Inr (c\<lparr>m_couter := f (m_couter c) mod (m_max c + 1)\<rparr>)
    \<and> f (m_couter c) mod (m_max c + 1) \<le> m_max c)
 \<and> (\<forall>c'. apply_func f c = Inr c' \<longrightarrow> in_range c')
 \<and> in_range (WrappedCounter_new max_value)
 \<and> (in_range c \<longrightarrow>
        in_range (snd (operator_pre_inc c)) \<and> in_range (snd (operator_pre_dec c))
      \<and> in_range (snd (operator_post_inc c)) \<and> in_range (snd (operator_post_dec c)))"
proof -
  have loop: "apply_func f (counter s) =
        Inr ((counter s)\<lparr>m_couter := f (m_couter (counter s)) mod (m_max (counter s) + 1)\<rparr>)
    \<and> unat (f (m_couter (counter s)) mod (m_max (counter s) + 1)) =
        unat (f (m_couter (counter s))) mod (unat (m_max (counter s)) + 1)
    \<and> f (m_couter (counter s)) mod (m_max (counter s) + 1) \<le> m_max (counter s)
    \<and> in_range (counter s)"
    if r: "reachable LED_COUNT s"
  proof -
    have nz: "m_max (counter s) + 1 \<noteq> 0" using r by (rule reachable_no_fault)
    show ?thesis
      using apply_func_defined [OF nz, of f] mod_max_unat [OF nz] mod_max_le [OF nz]
        reachable_in_range [OF r]
      by simp
  qed
  have general: "apply_func f c = Inr (c\<lparr>m_couter := f (m_couter c) mod (m_max c + 1)\<rparr>)
      \<and> f (m_couter c) mod (m_max c + 1) \<le> m_max c"
    if nz: "m_max c + 1 \<noteq> 0"
    using apply_func_defined [OF nz, of f] mod_max_le [OF nz] by simp
  have ctor: "in_range (WrappedCounter_new max_value)"
    by (simp add: in_range_def WrappedCounter_new_def)
  have ops: "in_range (snd (operator_pre_inc c)) \<and> in_range (snd (operator_pre_dec c))
      \<and> in_range (snd (operator_post_inc c)) \<and> in_range (snd (operator_post_dec c))"
    if "in_range c"
    using that in_range_pre_inc [of c] in_range_pre_dec [of c]
    by (simp add: operator_post_inc_def operator_post_dec_def Let_def)
  show ?thesis using loop general ctor ops apply_func_in_range [of f c] by blast
qed

theorem apply_wraps_into_range_witness:
  "loop_body (Button1, 0) (initial_state 4) =
     Inr \<lparr>counter = \<lparr>m_couter = 15, m_max = 15\<rparr>, previous_button = Button1, run_demo = True,
          io_log = [PushButtonGet Button1, WriteAllLeds 15, sleep_for]\<rparr>
   \<and> apply_func (\<lambda>count. push_bit 1 count) \<lparr>m_couter = 15, m_max = 15\<rparr>
       = Inr \<lparr>m_couter = 14, m_max = 15\<rparr>
   \<and> in_range \<lparr>m_couter = 14, m_max = 15\<rparr>
   \<and> in_range (snd (operator_pre_inc \<lparr>m_couter = 14, m_max = 15\<rparr>))"
proof -
  let ?s = "\<lparr>counter = \<lparr>m_couter = 15, m_max = 15\<rparr>, previous_button = Button1,
            run_demo = True, io_log = [PushButtonGet Button1, WriteAllLeds 15, sleep_for]\<rparr>"
  have a: "reachable 4 (initial_state 4)" by (rule reachable.start) simp
  have b: "run_demo (initial_state 4)" by (simp add: initial_state_def)
  have c: "loop_body (Button1, 0) (initial_state 4) = Inr ?s"
    by (simp add: loop_body_def Let_def emit_def initial_state_def WrappedCounter_new_def
        operator_pre_dec_def operator_Count_def)
  have d: "reachable 4 ?s" using a b c by (rule reachable.iterate)
  have e: "in_range \<lparr>m_couter = 14, m_max = 15\<rparr>" by (simp add: in_range_def)
  show ?thesis
    using c d e
      apply_wraps_into_range [of 4 ?s "\<lambda>count. push_bit 1 count" "\<lparr>m_couter = 14, m_max = 15\<rparr>"]
    by simp
qed

text \<open>
  C4. From any state of the loop in which \<open>previous_button\<close> is \<open>Multiple\<close>, as long
  as every button read decodes to something other than \<open>None\<close> (a single button in
  particular), every iteration is skipped: the counter, \<open>previous_button\<close> and
  \<open>run_demo\<close> stay as they are and the only device calls are the button reads and the
  sleeps, so the switches are never read and the LEDs never written. Conversely, if a
  run from such a state changes the counter, reads the switches or writes the LEDs, one
  of its button reads decoded to \<open>None\<close>.
\<close>

theorem wait_for_unpress_holds:
  assumes "previous_button s = Multiple"
  shows "((\<forall>inp \<in> set inps. fst inp \<noteq> PushButton_None) \<longrightarrow>
            while_run_demo inps s =
              Inr (s\<lparr>io_log := io_log s @
                     (if run_demo s
                      then concat (map (\<lambda>inp. [PushButtonGet (fst inp), sleep_for]) inps)
                      else [])\<rparr>)
          \<and> (\<forall>e \<in> set (concat (map (\<lambda>inp. [PushButtonGet (fst inp), sleep_for]) inps)).
                \<not> is_dispatch_event e))
       \<and> (\<forall>s'. while_run_demo inps s = Inr s'
                \<and> (counter s' \<noteq> counter s
                    \<or> (\<exists>e \<in> set (drop (length (io_log s)) (io_log s')). is_dispatch_event e))
              \<longrightarrow> (\<exists>inp \<in> set inps. fst inp = PushButton_None))"
proof -
  let ?quiet = "concat (map (\<lambda>inp. [PushButtonGet (fst inp), sleep_for]) inps)"
  have quiet: "\<forall>e \<in> set ?quiet. \<not> is_dispatch_event e" by auto
  have held: "while_run_demo inps s =
      Inr (s\<lparr>io_log := io_log s @ (if run_demo s then ?quiet else [])\<rparr>)"
    if "\<forall>inp \<in> set inps. fst inp \<noteq> PushButton_None"
    using assms that by (rule held_after_chord)
  have "\<exists>inp \<in> set inps. fst inp = PushButton_None"
    if run: "while_run_demo inps s = Inr s'"
      and act: "counter s' \<noteq> counter s
          \<or> (\<exists>e \<in> set (drop (length (io_log s)) (io_log s')). is_dispatch_event e)"
    for s'
  proof (rule ccontr)
    assume "\<not> (\<exists>inp \<in> set inps. fst inp = PushButton_None)"
    then have "\<forall>inp \<in> set inps. fst inp \<noteq> PushButton_None" by simp
    then have "while_run_demo inps s =
        Inr (s\<lparr>io_log := io_log s @ (if run_demo s then ?quiet else [])\<rparr>)"
      by (rule held)
    with run have s': "s' = s\<lparr>io_log := io_log s @ (if run_demo s then ?quiet else [])\<rparr>"
      by simp
    then have "counter s' = counter s" by simp
    moreover have "drop (length (io_log s)) (io_log s') = (if run_demo s then ?quiet else [])"
      using s' by simp
    then have "\<forall>e \<in> set (drop (length (io_log s)) (io_log s')). \<not> is_dispatch_event e"
      using quiet by (cases "run_demo s") (simp_all only: if_True if_False list.set ball_empty)
    ultimately show False using act by blast
  qed
  then show ?thesis using held quiet by blast
qed

theorem wait_for_unpress_holds_witness:
  "previous_button (initial_state 4\<lparr>previous_button := Multiple\<rparr>) = Multiple
   \<and> while_run_demo [(Button0, 3), (Button3, 0), (Multiple, 0)]
        (initial_state 4\<lparr>previous_button := Multiple\<rparr>) =
       Inr \<lparr>counter = \<lparr>m_couter = 0, m_max = 15\<rparr>, previous_button = Multiple,
            run_demo = True,
            io_log = [PushButtonGet Button0, sleep_for, PushButtonGet Button3, sleep_for,
                      PushButtonGet Multiple, sleep_for]\<rparr>"
proof -
  let ?s = "initial_state 4\<lparr>previous_button := Multiple\<rparr>"
  have a: "previous_button ?s = Multiple" by simp
  have b: "\<forall>inp \<in> set [(Button0, 3), (Button3, 0), (Multiple, 0 :: Register)].
      fst inp \<noteq> PushButton_None" by simp
  show ?thesis
    using a b wait_for_unpress_holds [OF a, of "[(Button0, 3), (Button3, 0), (Multiple, 0)]"]
    by (simp add: initial_state_def WrappedCounter_new_def)
qed

text \<open>
  C5. In a reachable state of the loop whose \<open>previous_button\<close> is not \<open>Multiple\<close>
  (so that the gate lets a \<open>Multiple\<close> event through), an iteration that decodes
  \<open>Multiple\<close> reads the switches, stores the switch value modulo \<open>max + 1\<close> in the
  counter, writes the counter to the LEDs, records \<open>Multiple\<close> as the previous event
  and sleeps. If the switch value is \<open>SWITCH_EXIT_SENTINEL\<close> the value written to the
  LEDs is 0, \<open>run_demo\<close> becomes false, and the loop returns the state of the end of
  this iteration whatever inputs would follow: no further button read happens.
\<close>

theorem chord_reads_switches:
  assumes "reachable LED_COUNT s" "run_demo s" "previous_button s \<noteq> Multiple"
  shows "let c' = (counter s)\<lparr>m_couter := ucast sw mod (m_max (counter s) + 1)\<rparr>;
             s' = s\<lparr>counter := c',
                    previous_button := Multiple,
                    run_demo := (sw \<noteq> SWITCH_EXIT_SENTINEL),
                    io_log := io_log s @
                      [PushButtonGet Multiple, ReadAllSwitches sw,
                       WriteAllLeds (ucast (m_couter c')), sleep_for]\<rparr>
         in loop_body (Multiple, sw) s = Inr s'
          \<and> unat (m_couter c') = unat sw mod (unat (m_max (counter s)) + 1)
          \<and> (sw = SWITCH_EXIT_SENTINEL \<longrightarrow>
                io_log s' = io_log s @
                  [PushButtonGet Multiple, ReadAllSwitches sw, WriteAllLeds 0, sleep_for]
              \<and> \<not> run_demo s'
              \<and> while_run_demo ((Multiple, sw) # rest) s = Inr s')"
proof -
  define c' where "c' = (counter s)\<lparr>m_couter := ucast sw mod (m_max (counter s) + 1)\<rparr>"
  define s' where "s' = s\<lparr>counter := c',
                    previous_button := Multiple,
                    run_demo := (sw \<noteq> SWITCH_EXIT_SENTINEL),
                    io_log := io_log s @
                      [PushButtonGet Multiple, ReadAllSwitches sw,
                       WriteAllLeds (ucast (m_couter c')), sleep_for]\<rparr>"
  have nz: "m_max (counter s) + 1 \<noteq> 0" using assms(1) by (rule reachable_no_fault)
  have step: "loop_body (Multiple, sw) s = Inr s'"
    using chord_step [OF nz assms(2,3), of sw] by (simp add: s'_def c'_def)
  have val: "unat (m_couter c') = unat sw mod (unat (m_max (counter s)) + 1)"
    using mod_max_unat [OF nz, of "ucast sw"] by (simp add: ucast_register_unat c'_def)
  have exit: "io_log s' = io_log s @
                  [PushButtonGet Multiple, ReadAllSwitches sw, WriteAllLeds 0, sleep_for]
              \<and> \<not> run_demo s'
              \<and> while_run_demo ((Multiple, sw) # rest) s = Inr s'"
    if sentinel: "sw = SWITCH_EXIT_SENTINEL"
  proof -
    have "m_couter c' = 0" using sentinel by (simp add: c'_def SWITCH_EXIT_SENTINEL_def)
    then have log: "io_log s' = io_log s @
        [PushButtonGet Multiple, ReadAllSwitches sw, WriteAllLeds 0, sleep_for]"
      by (simp add: s'_def)
    have stop: "\<not> run_demo s'" using sentinel by (simp add: s'_def)
    then have "while_run_demo rest s' = Inr s'" by (rule loop_left)
    then have "while_run_demo ((Multiple, sw) # rest) s = Inr s'"
      using step assms(2) by simp
    with log stop show ?thesis by simp
  qed
  have "loop_body (Multiple, sw) s = Inr s'
      \<and> unat (m_couter c') = unat sw mod (unat (m_max (counter s)) + 1)
      \<and> (sw = SWITCH_EXIT_SENTINEL \<longrightarrow>
            io_log s' = io_log s @
              [PushButtonGet Multiple, ReadAllSwitches sw, WriteAllLeds 0, sleep_for]
          \<and> \<not> run_demo s'
          \<and> while_run_demo ((Multiple, sw) # rest) s = Inr s')"
    using step val exit by blast
  then show ?thesis unfolding s'_def c'_def Let_def .
qed

theorem chord_reads_switches_witness:
  "loop_body (Multiple, 0) (initial_state 4) =
     Inr \<lparr>counter = \<lparr>m_couter = 0, m_max = 15\<rparr>, previous_button = Multiple,
          run_demo = False,
          io_log = [PushButtonGet Multiple, ReadAllSwitches 0, WriteAllLeds 0, sleep_for]\<rparr>
   \<and> while_run_demo [(Multiple, 0), (Button0, 7), (Multiple, 9)] (initial_state 4) =
     Inr \<lparr>counter = \<lparr>m_couter = 0, m_max = 15\<rparr>, previous_button = Multiple,
          run_demo = False,
          io_log = [PushButtonGet Multiple, ReadAllSwitches 0, WriteAllLeds 0, sleep_for]\<rparr>"
proof -
  have a: "reachable 4 (initial_state 4)" by (rule reachable.start) simp
  have b: "run_demo (initial_state 4)" by (simp add: initial_state_def)
  have c: "previous_button (initial_state 4) \<noteq> Multiple" by (simp add: initial_state_def)
  show ?thesis
    using chord_reads_switches [OF a b c, of 0 "[(Button0, 7), (Multiple, 9)]"]
    by (simp add: Let_def initial_state_def WrappedCounter_new_def SWITCH_EXIT_SENTINEL_def)
qed

text \<open>
  C9. With \<open>max = 15\<close>, the counter at 15 and \<open>previous_button = None\<close>, the reads
  \<open>Button0, Button0, None, Button1\<close> (whatever the switches show) go as follows: the
  first \<open>Button0\<close> increments the counter to 0 and writes 0 to the LEDs; the second
  \<open>Button0\<close> is skipped (a button read and a sleep only); \<open>None\<close> leaves the counter
  alone and writes the unchanged 0 to the LEDs again; \<open>Button1\<close> decrements the
  counter to 15 and writes 15. The LED register is written three times, with 0, 0 and
  15, so the values it shows are 0 and then 15.
\<close>

theorem end_to_end_scenario:
  "let s0 = \<lparr>counter = \<lparr>m_couter = 15, m_max = 15\<rparr>, previous_button = PushButton_None,
             run_demo = True, io_log = []\<rparr>;
       s1 = \<lparr>counter = \<lparr>m_couter = 0, m_max = 15\<rparr>, previous_button = Button0,
             run_demo = True,
             io_log = [PushButtonGet Button0, WriteAllLeds 0, sleep_for]\<rparr>;
       s2 = s1\<lparr>io_log := io_log s1 @ [PushButtonGet Button0, sleep_for]\<rparr>;
       s3 = s2\<lparr>previous_button := PushButton_None,
              io_log := io_log s2 @ [PushButtonGet PushButton_None, WriteAllLeds 0, sleep_for]\<rparr>;
       s4 = \<lparr>counter = \<lparr>m_couter = 15, m_max = 15\<rparr>, previous_button = Button1,
             run_demo = True,
             io_log = io_log s3 @ [PushButtonGet Button1, WriteAllLeds 15, sleep_for]\<rparr>
   in loop_body (Button0, sw1) s0 = Inr s1
    \<and> loop_body (Button0, sw2) s1 = Inr s2
    \<and> loop_body (PushButton_None, sw3) s2 = Inr s3
    \<and> loop_body (Button1, sw4) s3 = Inr s4
    \<and> while_run_demo [(Button0, sw1), (Button0, sw2), (PushButton_None, sw3), (Button1, sw4)] s0
        = Inr s4
    \<and> led_writes (io_log s4) = [0, 0, 15]
    \<and> remdups_adj (led_writes (io_log s4)) = [0, 15]"
  by (simp add: Let_def loop_body_def emit_def operator_pre_inc_def operator_pre_dec_def
      operator_Count_def)

theorem end_to_end_scenario_witness:
  "while_run_demo [(Button0, 0), (Button0, 0), (PushButton_None, 0), (Button1, 0)]
     \<lparr>counter = \<lparr>m_couter = 15, m_max = 15\<rparr>, previous_button = PushButton_None,
      run_demo = True, io_log = []\<rparr>
   = Inr \<lparr>counter = \<lparr>m_couter = 15, m_max = 15\<rparr>, previous_button = Button1,
          run_demo = True,
          io_log = [PushButtonGet Button0, WriteAllLeds 0, sleep_for,
                    PushButtonGet Button0, sleep_for,
                    PushButtonGet PushButton_None, WriteAllLeds 0, sleep_for,
                    PushButtonGet Button1, WriteAllLeds 15, sleep_for]\<rparr>"
  using end_to_end_scenario [of 0 0 0 0] by (simp add: Let_def)

text \<open>
  C10. On an iteration in which the gate fires (\<open>previous_button\<close> is \<open>Multiple\<close>
  and the current event is not \<open>None\<close>, or the current event equals
  \<open>previous_button\<close>), the state after the iteration is the state before it with a
  button read and a sleep added to the device calls: the counter, \<open>previous_button\<close>
  and \<open>run_demo\<close> are unchanged, the switches are not read and the LEDs are not
  written.
\<close>

theorem debounce_gate_frame:
  assumes "(previous_button s = Multiple \<and> button_press \<noteq> PushButton_None)
           \<or> button_press = previous_button s"
  shows "loop_body (button_press, sw) s =
           Inr (s\<lparr>io_log := io_log s @ [PushButtonGet button_press, sleep_for]\<rparr>)"
  using assms gate_skips [of s "(button_press, sw)"] by simp

theorem debounce_gate_frame_witness:
  "((previous_button (initial_state 4\<lparr>previous_button := Multiple\<rparr>) = Multiple \<and> Button2 \<noteq> PushButton_None)
      \<or> Button2 = previous_button (initial_state 4\<lparr>previous_button := Multiple\<rparr>))
   \<and> loop_body (Button2, 5) (initial_state 4\<lparr>previous_button := Multiple\<rparr>) =
       Inr \<lparr>counter = \<lparr>m_couter = 0, m_max = 15\<rparr>, previous_button = Multiple,
            run_demo = True, io_log = [PushButtonGet Button2, sleep_for]\<rparr>"
proof -
  let ?s = "initial_state 4\<lparr>previous_button := Multiple\<rparr>"
  have a: "(previous_button ?s = Multiple \<and> Button2 \<noteq> PushButton_None)
      \<or> Button2 = previous_button ?s" by simp
  show ?thesis
    using a debounce_gate_frame [OF a, of 5]
    by (simp add: initial_state_def WrappedCounter_new_def)
qed

section \<open>Properties of the input decoder\<close>













text \<open>The parameter is consulted for a single set bit outside the four button lines.\<close>

lemma decode_other_line: "decode_buttons other 16 = other 4"
  by (simp add: decode_buttons_def set_bits_def upt_rec button_at_def eval_nat_numeral)



end
